theory Spec2Isabelle
  imports Main
begin

section \<open>Hammock: chained URL builder and request dispatch\<close>

text \<open>
  A shallow embedding of \<^verbatim>\<open>hammock.py\<close>. A \<^verbatim>\<open>Hammock\<close> instance is a node of a
  chain linked through \<^verbatim>\<open>_parent\<close>; the \<^verbatim>\<open>requests\<close> library is an external
  collaborator, so a session object is a handle, and the calls made on the library
  (\<^verbatim>\<open>request\<close>, \<^verbatim>\<open>close\<close>) are recorded in an explicit world state.
\<close>

subsection \<open>Values\<close>

text \<open>Python values that occur as keyword arguments and as caller-attached attributes.\<close>

datatype pyval =
    PNone
  | PBool bool
  | PInt int
  | PStr string
  | PDict "(string \<times> pyval) list"

text \<open>A \<^verbatim>\<open>**kwargs\<close> dictionary in insertion order; its keys are distinct.\<close>

type_synonym kwargs = "(string \<times> pyval) list"

text \<open>A handle naming one \<^verbatim>\<open>requests\<close> session object (such an object is always truthy).\<close>

type_synonym session = nat

text \<open>Positional arguments of \<^verbatim>\<open>_chain\<close>: "string representable objects".\<close>

datatype arg = ArgStr string | ArgInt int

fun digits :: "nat \<Rightarrow> string" where
  "digits n =
     (if n < 10 then [''0123456789'' ! n]
      else digits (n div 10) @ [''0123456789'' ! (n mod 10)])"

declare digits.simps [simp del]

fun str :: "arg \<Rightarrow> string" where
  "str (ArgStr s) = s"
| "str (ArgInt i) = (if i < 0 then CHR ''-'' # digits (nat (- i)) else digits (nat i))"

datatype error =
    Exception string
  | TypeError
  | TransportError string

subsection \<open>The node\<close>

text \<open>
  The instance dictionary of a node: \<^verbatim>\<open>_name\<close>, \<^verbatim>\<open>_parent\<close>, \<^verbatim>\<open>_append_slash\<close>,
  \<^verbatim>\<open>_session\<close>, and whatever a caller attached afterwards (\<open>custom\<close>, keyed by
  attribute name).
\<close>

datatype hammock =
  Hammock (name: "string option") (parent: "hammock option") (append_slash: bool)
          (session: "session option") (custom: "string \<Rightarrow> pyval option")

text \<open>
  \<^verbatim>\<open>__init__(name, parent, append_slash, **kwargs)\<close>. The argument \<open>sess\<close> is the value
  of \<^verbatim>\<open>kwargs and requests.session(**kwargs) or None\<close>: \<open>None\<close> when no keyword argument
  is given.
\<close>

definition init :: "string option \<Rightarrow> hammock option \<Rightarrow> bool \<Rightarrow> session option \<Rightarrow> hammock" where
  "init nm par slash sess = Hammock nm par slash sess Map.empty"

text \<open>
  \<^verbatim>\<open>node.attribute = value\<close> for an attribute of the caller's own: its name is none of
  the four fields and no member of the class.
\<close>

definition setattr :: "hammock \<Rightarrow> string \<Rightarrow> pyval \<Rightarrow> hammock" where
  "setattr h attribute v =
     Hammock (name h) (parent h) (append_slash h) (session h) ((custom h)(attribute \<mapsto> v))"

text \<open>
  The loop shared by \<^verbatim>\<open>__getattr__\<close> and \<^verbatim>\<open>_chain\<close>:
  \<^verbatim>\<open>for attribute, value in self.__dict__.items():
       if attribute not in ('_name', '_parent', '_append_slash'):
           setattr(chain, attribute, value)\<close>
  The entries that pass the test are \<^verbatim>\<open>_session\<close> and the caller-attached ones.
\<close>

definition copy_attributes :: "hammock \<Rightarrow> hammock \<Rightarrow> hammock" where
  "copy_attributes self chain =
     Hammock (name chain) (parent chain) (append_slash chain)
             (session self) (custom chain ++ custom self)"

text \<open>\<^verbatim>\<open>__getattr__(self, name)\<close>, reached for every attribute the node does not have.\<close>

definition getattr :: "hammock \<Rightarrow> string \<Rightarrow> hammock" where
  "getattr self nm =
     copy_attributes self (init (Some nm) (Some self) (append_slash self) None)"

text \<open>Truthiness of \<^verbatim>\<open>_name\<close>: \<^verbatim>\<open>None\<close> and the empty string are false.\<close>

fun truthy :: "string option \<Rightarrow> bool" where
  "truthy None = False"
| "truthy (Some s) = (s \<noteq> [])"

text \<open>
  \<^verbatim>\<open>__iter__\<close>: the nodes the generator yields, in order. \<^verbatim>\<open>while current\<close> stops at
  \<^verbatim>\<open>None\<close> only (an instance is truthy); a node is yielded when its name is truthy.
\<close>

fun iter :: "hammock \<Rightarrow> hammock list" where
  "iter (Hammock nm par slash sess cust) =
     (if truthy nm then [Hammock nm par slash sess cust] else []) @
     (case par of None \<Rightarrow> [] | Some p \<Rightarrow> iter p)"

text \<open>\<^verbatim>\<open>_chain(self, *args)\<close>.\<close>

definition chain' :: "hammock \<Rightarrow> arg list \<Rightarrow> hammock" where
  "chain' self args =
     copy_attributes self
       (foldl (\<lambda>chain a. init (Some (str a)) (Some chain) (append_slash self) None) self args)"

text \<open>\<^verbatim>\<open>__call__(self, *args)\<close>.\<close>

definition call :: "hammock \<Rightarrow> arg list \<Rightarrow> hammock" where
  "call self args = chain' self args"

subsection \<open>Sessions\<close>

text \<open>The \<^verbatim>\<open>for hammock in self\<close> loop of \<^verbatim>\<open>_probe_session\<close>.\<close>

fun probe_loop :: "hammock list \<Rightarrow> session option" where
  "probe_loop [] = None"
| "probe_loop (h # hs) = (case session h of Some s \<Rightarrow> Some s | None \<Rightarrow> probe_loop hs)"

definition probe_session :: "hammock \<Rightarrow> session option" where
  "probe_session self = probe_loop (iter self)"

text \<open>What the program did to the outside: sessions closed and requests sent, in order.\<close>

record call_record =
  target :: "session option"
  meth :: string
  address :: string
  options :: kwargs

record world =
  closed :: "session list"
  sent :: "call_record list"

text \<open>Python's \<^verbatim>\<open>a or b\<close> on values that are \<^verbatim>\<open>None\<close> or a session.\<close>

fun py_or :: "session option \<Rightarrow> session option \<Rightarrow> session option" where
  "py_or (Some s) b = Some s"
| "py_or None b = b"

text \<open>
  \<^verbatim>\<open>_close_session(self, probe=False)\<close>:
  \<^verbatim>\<open>session = probe and self._probe_session() or self._session\<close>, then
  \<^verbatim>\<open>session.close()\<close> when it is truthy.
\<close>

definition close_session :: "hammock \<Rightarrow> bool \<Rightarrow> world \<Rightarrow> world" where
  "close_session self probe w =
     (let sess = py_or (if probe then probe_session self else None) (session self)
      in case sess of None \<Rightarrow> w | Some s \<Rightarrow> w\<lparr>closed := closed w @ [s]\<rparr>)"

subsection \<open>URL\<close>

text \<open>\<^verbatim>\<open>sep.join(items)\<close>; it raises \<^verbatim>\<open>TypeError\<close> on an item that is not a string.\<close>

fun join_strings :: "string \<Rightarrow> string list \<Rightarrow> string" where
  "join_strings sep [] = []"
| "join_strings sep [x] = x"
| "join_strings sep (x # y # ys) = x @ sep @ join_strings sep (y # ys)"

definition join :: "string \<Rightarrow> string option list \<Rightarrow> error + string" where
  "join sep items =
     (if None \<in> set items then Inl TypeError else Inr (join_strings sep (map the items)))"

text \<open>\<^verbatim>\<open>_url(self, *args)\<close> and \<^verbatim>\<open>__repr__\<close>.\<close>

definition url :: "hammock \<Rightarrow> arg list \<Rightarrow> error + string" where
  "url self args =
     (let path_comps = map name (iter (chain' self args)) in
      if append_slash self then
        (case join ''/'' (rev path_comps) of Inl e \<Rightarrow> Inl e | Inr u \<Rightarrow> Inr (u @ ''/''))
      else join ''/'' (rev path_comps))"

definition repr :: "hammock \<Rightarrow> error + string" where
  "repr self = url self []"

subsection \<open>Dispatch\<close>

text \<open>
  \<^verbatim>\<open>_request(self, method, *args, **kwargs)\<close>. The transport \<open>tr\<close> stands for
  \<^verbatim>\<open>session.request\<close> of the library; \<open>target = None\<close> is the \<^verbatim>\<open>requests\<close> module.
  Binding the call \<^verbatim>\<open>hammock._request(method, *args, **kwargs)\<close> to this signature
  raises \<^verbatim>\<open>TypeError\<close> when the dictionary holds a key named \<^verbatim>\<open>self\<close> or \<^verbatim>\<open>method\<close>
  (the parameter would get two values); nothing of the body runs then.
\<close>

definition request ::
  "(call_record \<Rightarrow> error + 'r) \<Rightarrow> hammock \<Rightarrow> string \<Rightarrow> arg list \<Rightarrow> kwargs \<Rightarrow> world
     \<Rightarrow> (error + 'r) \<times> world" where
  "request tr self method args kw w =
     (if ''self'' \<in> set (map fst kw) \<or> ''method'' \<in> set (map fst kw) then (Inl TypeError, w)
      else
        (let sess = probe_session self in
         case url self args of
           Inl e \<Rightarrow> (Inl e, w)
         | Inr u \<Rightarrow>
             (let c = \<lparr>target = sess, meth = method, address = u, options = kw\<rparr>
              in (tr c, w\<lparr>sent := sent w @ [c]\<rparr>))))"

definition REQUESTS_SPECIAL_KEYS :: "string set" where
  "REQUESTS_SPECIAL_KEYS =
     {''params'', ''headers'', ''cookies'', ''auth'', ''timeout'',
      ''allow_redirects'', ''proxies'', ''return_response'', ''session'',
      ''config'', ''verify'', ''prefetch'', ''cert''}"

text \<open>
  \<^verbatim>\<open>d.setdefault(k, {}).update({key: value})\<close> on a dictionary of dictionaries, and
  \<^verbatim>\<open>dict.update\<close> with one pair: an existing key keeps its place, a new one goes last.
\<close>

fun dict_update :: "'k \<Rightarrow> 'v \<Rightarrow> ('k \<times> 'v) list \<Rightarrow> ('k \<times> 'v) list" where
  "dict_update k v [] = [(k, v)]"
| "dict_update k v ((k', v') # d) =
     (if k' = k then (k, v) # d else (k', v') # dict_update k v d)"

definition setdefault_update ::
  "string \<Rightarrow> string \<Rightarrow> pyval \<Rightarrow> (string \<times> kwargs) list \<Rightarrow> (string \<times> kwargs) list" where
  "setdefault_update k key v d =
     (case map_of d k of
        None \<Rightarrow> d @ [(k, [(key, v)])]
      | Some inner \<Rightarrow> dict_update k (dict_update key v inner) d)"

text \<open>
  One round of \<^verbatim>\<open>for key in kwargs\<close> in \<^verbatim>\<open>aux\<close>, on the state
  \<open>(special_key_found, non_special_key_found, params_to_send)\<close>; \<^verbatim>\<open>kwargs[key]\<close> is the
  value stored with the key.
\<close>

fun scan_key ::
  "string \<times> pyval \<Rightarrow> bool \<times> bool \<times> (string \<times> kwargs) list
     \<Rightarrow> bool \<times> bool \<times> (string \<times> kwargs) list" where
  "scan_key (key, v) (special_key_found, non_special_key_found, params_to_send) =
     (if key \<notin> REQUESTS_SPECIAL_KEYS
      then (special_key_found, True, setdefault_update ''params'' key v params_to_send)
      else (True, non_special_key_found, params_to_send))"

definition ambiguous_message :: string where
  "ambiguous_message =
     ''You cannot pass a requests kwarg and an                     unknown kwarg together''"

text \<open>
  \<^verbatim>\<open>bind_method(method)\<close> returns \<^verbatim>\<open>aux\<close>; \<^verbatim>\<open>Hammock.GET\<close> is \<^verbatim>\<open>bind_method('get')\<close>
  and so on for each of \<^verbatim>\<open>HTTP_METHODS\<close>. The dictionary \<open>kw\<close> is the one Python binds to
  \<^verbatim>\<open>**kwargs\<close> of \<^verbatim>\<open>aux(hammock, *args, **kwargs)\<close>, so it never holds a key named
  \<^verbatim>\<open>hammock\<close>.
\<close>

definition HTTP_METHODS :: "string list" where
  "HTTP_METHODS = [''get'', ''options'', ''head'', ''post'', ''put'', ''patch'', ''delete'']"

definition bind_method ::
  "string \<Rightarrow> (call_record \<Rightarrow> error + 'r) \<Rightarrow> hammock \<Rightarrow> arg list \<Rightarrow> kwargs \<Rightarrow> world
     \<Rightarrow> (error + 'r) \<times> world" where
  "bind_method method tr hammock args kw w =
     (if method = ''get'' \<and> kw \<noteq> [] \<and> ''params'' \<notin> set (map fst kw) then
        (case fold scan_key kw (False, False, []) of
           (special_key_found, non_special_key_found, params_to_send) \<Rightarrow>
             if special_key_found \<and> non_special_key_found
             then (Inl (Exception ambiguous_message), w)
             else if non_special_key_found
             then request tr hammock method args (map (\<lambda>(k, d). (k, PDict d)) params_to_send) w
             else request tr hammock method args kw w)
      else request tr hammock method args kw w)"

subsection \<open>Chains built through the public operations\<close>

text \<open>
  A chain is grown from a node by attribute access (\<^verbatim>\<open>node.name\<close>) and by calls
  (\<^verbatim>\<open>node(a, b, ...)\<close>); \<open>build\<close> is the node such a sequence of operations returns and
  \<open>chained_names\<close> the names it asked for, in order.
\<close>

datatype step = Attr string | Call "arg list"

fun apply_step :: "hammock \<Rightarrow> step \<Rightarrow> hammock" where
  "apply_step h (Attr nm) = getattr h nm"
| "apply_step h (Call args) = call h args"

definition build :: "hammock \<Rightarrow> step list \<Rightarrow> hammock" where
  "build root steps = foldl apply_step root steps"

fun step_names :: "step \<Rightarrow> string list" where
  "step_names (Attr nm) = [nm]"
| "step_names (Call args) = map str args"

definition chained_names :: "step list \<Rightarrow> string list" where
  "chained_names steps = concat (map step_names steps)"

text \<open>The name of a node as a path segment: nothing when it is absent or empty.\<close>

fun segment :: "string option \<Rightarrow> string list" where
  "segment None = []"
| "segment (Some s) = (if s = [] then [] else [s])"

text \<open>The string \<open>n1/n2/.../nk\<close> of the specification.\<close>

fun slash_path :: "string list \<Rightarrow> string" where
  "slash_path [] = []"
| "slash_path (n # ns) = n @ concat (map (\<lambda>m. CHR ''/'' # m) ns)"

text \<open>How many \<open>/\<close> a string ends with.\<close>

definition trailing_slashes :: "string \<Rightarrow> nat" where
  "trailing_slashes s = length (takeWhile (\<lambda>c. c = CHR ''/'') (rev s))"

text \<open>
  The search the specification describes for \<open>findSession\<close>: from the node itself
  upward, the first session field that is present, whatever the names of the nodes.
\<close>

fun find_session :: "hammock \<Rightarrow> session option" where
  "find_session (Hammock nm par slash sess cust) =
     (case sess of
        Some s \<Rightarrow> Some s
      | None \<Rightarrow> (case par of None \<Rightarrow> None | Some p \<Rightarrow> find_session p))"

text \<open>The node and its ancestors, nearest first, named or not.\<close>

fun ancestors :: "hammock \<Rightarrow> hammock list" where
  "ancestors (Hammock nm par slash sess cust) =
     Hammock nm par slash sess cust # (case par of None \<Rightarrow> [] | Some p \<Rightarrow> ancestors p)"

text \<open>
  The parameter-coercion rule in the words of the specification: the keys are split
  into the recognised transport keys and all the others; with at least one other key,
  the call is rejected when a recognised key is present too, and otherwise the options
  become a single \<open>params\<close> entry holding every pair; with no other key they stay as
  they are.
\<close>

definition coercion_rule :: "kwargs \<Rightarrow> error + kwargs" where
  "coercion_rule kw =
     (let others = filter (\<lambda>(k, v). k \<notin> REQUESTS_SPECIAL_KEYS) kw;
          specials = filter (\<lambda>(k, v). k \<in> REQUESTS_SPECIAL_KEYS) kw
      in if others \<noteq> [] then
           (if specials \<noteq> [] then Inl (Exception ambiguous_message)
            else Inr [(''params'', PDict others)])
         else Inr kw)"


section \<open>Properties\<close>

subsection \<open>The names along a chain\<close>

lemma iter_unfold:
  "iter h = (if truthy (name h) then [h] else []) @
            (case parent h of None \<Rightarrow> [] | Some p \<Rightarrow> iter p)"
  by (cases h) simp

lemma iter_truthy: "m \<in> set (iter h) \<Longrightarrow> truthy (name m)"
  by (induction h arbitrary: m rule: iter.induct) (auto split: if_splits option.splits)

lemma truthy_segment: "(if truthy n then [n] else []) = map Some (segment n)"
  by (cases n) auto

lemma names_iter:
  "map name (iter h) =
     map Some (segment (name h)) @ (case parent h of None \<Rightarrow> [] | Some p \<Rightarrow> map name (iter p))"
  by (subst iter_unfold) (simp add: truthy_segment [symmetric] split: option.split)

lemma iter_ancestors: "iter h = filter (\<lambda>m. truthy (name m)) (ancestors h)"
  by (induction h rule: iter.induct) (simp split: option.split)

lemma names_filter_segments:
  "map name (filter (\<lambda>m. truthy (name m)) xs) = map Some (concat (map (\<lambda>m. segment (name m)) xs))"
proof (induction xs)
  case Nil
  show ?case by simp
next
  case (Cons m xs)
  then show ?case by (cases "name m") simp_all
qed

lemma names_copy_attributes:
  "map name (iter (copy_attributes self c)) = map name (iter c)"
  by (subst (1 2) names_iter) (simp add: copy_attributes_def)

lemma names_init:
  "map name (iter (init nm (Some c) sl se)) = map Some (segment nm) @ map name (iter c)"
  by (subst names_iter) (simp add: init_def)

lemma names_foldl_init:
  "map name (iter (foldl (\<lambda>chain a. init (Some (str a)) (Some chain) sl None) c args)) =
     rev (map Some (filter (\<lambda>s. s \<noteq> []) (map str args))) @ map name (iter c)"
proof (induction args rule: rev_induct)
  case Nil
  show ?case by simp
next
  case (snoc a args)
  show ?case by (simp add: names_init snoc.IH)
qed

lemma names_chain:
  "map name (iter (chain' self args)) =
     rev (map Some (filter (\<lambda>s. s \<noteq> []) (map str args))) @ map name (iter self)"
  by (simp add: chain'_def names_copy_attributes names_foldl_init)

lemma names_getattr:
  "map name (iter (getattr self nm)) = map Some (segment (Some nm)) @ map name (iter self)"
  by (simp add: getattr_def names_copy_attributes names_init)

lemma names_apply_step:
  "map name (iter (apply_step h st)) =
     rev (map Some (filter (\<lambda>s. s \<noteq> []) (step_names st))) @ map name (iter h)"
  by (cases st) (simp_all add: names_getattr call_def names_chain)

lemma names_build:
  "map name (iter (build root steps)) =
     rev (map Some (filter (\<lambda>s. s \<noteq> []) (chained_names steps))) @ map name (iter root)"
  unfolding build_def chained_names_def
  by (induction steps rule: rev_induct) (simp_all add: names_apply_step)

subsection \<open>The trailing-slash flag is inherited\<close>

lemma append_slash_copy [simp]: "append_slash (copy_attributes self c) = append_slash c"
  by (simp add: copy_attributes_def)

lemma append_slash_foldl_init:
  "append_slash (foldl (\<lambda>chain a. init (Some (str a)) (Some chain) sl None) c args)
     = (if args = [] then append_slash c else sl)"
  by (induction args rule: rev_induct) (simp_all add: init_def)

lemma append_slash_apply_step: "append_slash (apply_step h st) = append_slash h"
  by (cases st) (simp_all add: getattr_def call_def chain'_def append_slash_foldl_init, simp add: init_def)

lemma append_slash_build: "append_slash (build root steps) = append_slash root"
  unfolding build_def
  by (induction steps rule: rev_induct) (simp_all add: append_slash_apply_step)

subsection \<open>Resolving a chain to its URL\<close>

lemma join_Some: "join sep (map Some xs) = Inr (join_strings sep xs)"
  by (auto simp: join_def comp_def)

lemma join_strings_concat:
  "join_strings sep xs = (case xs of [] \<Rightarrow> [] | n # ns \<Rightarrow> n @ concat (map (\<lambda>m. sep @ m) ns))"
  by (induction sep xs rule: join_strings.induct) simp_all

lemma join_strings_slash_path: "join_strings ''/'' xs = slash_path xs"
proof -
  have "(@) ''/'' = (#) CHR ''/''"
    by (rule ext) simp
  then show ?thesis
    by (cases xs) (simp_all add: join_strings_concat)
qed

lemma names_root: "parent root = None \<Longrightarrow> map name (iter root) = map Some (segment (name root))"
  by (subst names_iter) simp

lemma url_chain_names:
  assumes "map name (iter self) = map Some ns"
  shows "url self args =
     Inr (slash_path (rev ns @ filter (\<lambda>s. s \<noteq> []) (map str args)) @
          (if append_slash self then ''/'' else []))"
proof -
  have "rev (map name (iter (chain' self args))) =
          map Some (rev ns @ filter (\<lambda>s. s \<noteq> []) (map str args))"
    by (simp add: names_chain assms rev_map)
  then show ?thesis
    by (simp add: url_def Let_def join_Some join_strings_slash_path del: map_append)
qed

lemma url_build:
  assumes "parent root = None"
  shows "url (build root steps) args =
     Inr (slash_path (segment (name root) @
            filter (\<lambda>s. s \<noteq> []) (chained_names steps @ map str args)) @
          (if append_slash root then ''/'' else []))"
proof -
  have "map name (iter (build root steps)) =
          map Some (rev (filter (\<lambda>s. s \<noteq> []) (chained_names steps)) @ segment (name root))"
    by (simp add: names_build names_root [OF assms] rev_map)
  from url_chain_names [OF this, of args] show ?thesis
    by (cases "name root") (simp_all add: append_slash_build)
qed

lemma url_ancestors:
  "url self [] =
     Inr (slash_path (rev (concat (map (\<lambda>m. segment (name m)) (ancestors self)))) @
          (if append_slash self then ''/'' else []))"
proof -
  have "map name (iter self) = map Some (concat (map (\<lambda>m. segment (name m)) (ancestors self)))"
    by (simp only: iter_ancestors names_filter_segments)
  from url_chain_names [OF this, of "[]"] show ?thesis by simp
qed

lemma names_Some: "\<exists>ns. map name (iter h) = map Some ns"
proof (induction h rule: iter.induct)
  case (1 nm par slash sess cust)
  show ?case
  proof (cases par)
    case None
    then have "map name (iter (Hammock nm par slash sess cust)) = map Some (segment nm)"
      by (subst names_iter) simp
    then show ?thesis by blast
  next
    case (Some p)
    with "1.IH" obtain ns where "map name (iter p) = map Some ns" by blast
    with Some have "map name (iter (Hammock nm par slash sess cust)) = map Some (segment nm @ ns)"
      by (subst names_iter) simp
    then show ?thesis by blast
  qed
qed

lemma url_total: "\<exists>u. url self args = Inr u"
proof -
  obtain ns where "map name (iter self) = map Some ns"
    using names_Some by blast
  from url_chain_names [OF this] show ?thesis by blast
qed


text \<open>
  Claim C1. Take a root with no parent, an absent or empty name and \<open>append_slash\<close>
  false, and grow a chain from it by attribute accesses and calls whose names
  \<open>n1, ..., nk\<close> are all non-empty. Then \<^verbatim>\<open>_url()\<close> of the node obtained returns, without
  raising, the string \<open>n1/n2/.../nk\<close>; and that string is what the walk from the leaf to
  the root gives: the names of the node and its ancestors, the absent and empty ones
  skipped, reversed and joined with \<open>/\<close>.
\<close>

theorem url_chained_names:
  assumes "parent root = None" and "\<not> truthy (name root)" and "\<not> append_slash root"
    and "\<forall>n \<in> set (chained_names steps). n \<noteq> []"
  shows "url (build root steps) [] = Inr (slash_path (chained_names steps))
       \<and> url (build root steps) [] =
           Inr (slash_path (rev (concat (map (\<lambda>m. segment (name m))
                                           (ancestors (build root steps))))))"
proof -
  have "segment (name root) = []"
    using assms(2) by (cases "name root") auto
  moreover have "filter (\<lambda>s. s \<noteq> []) (chained_names steps) = chained_names steps"
    using assms(4) by (simp add: filter_id_conv)
  ultimately have "url (build root steps) [] = Inr (slash_path (chained_names steps))"
    using assms(3) by (simp add: url_build [OF assms(1)])
  moreover have "\<not> append_slash (build root steps)"
    using assms(3) by (simp add: append_slash_build)
  ultimately show ?thesis
    using url_ancestors [of "build root steps"] by simp
qed

text \<open>The chain \<^verbatim>\<open>root.api("v1").users("42")\<close> resolves to \<^verbatim>\<open>api/v1/users/42\<close>.\<close>

theorem url_chained_names_witness:
  "parent (init None None False None) = None
   \<and> \<not> truthy (name (init None None False None))
   \<and> \<not> append_slash (init None None False None)
   \<and> chained_names [Attr ''api'', Call [ArgStr ''v1''], Attr ''users'', Call [ArgStr ''42'']]
       = [''api'', ''v1'', ''users'', ''42'']
   \<and> url (build (init None None False None)
              [Attr ''api'', Call [ArgStr ''v1''], Attr ''users'', Call [ArgStr ''42'']]) []
       = Inr ''api/v1/users/42''"
  using url_chained_names [of "init None None False None"
      "[Attr ''api'', Call [ArgStr ''v1''], Attr ''users'', Call [ArgStr ''42'']]"]
  by (simp add: init_def chained_names_def)

subsection \<open>The trailing slash\<close>

lemma last_concat_prefixed:
  "ns \<noteq> [] \<Longrightarrow> concat (map ((#) c) ns) \<noteq> [] \<and>
     last (concat (map ((#) c) ns)) = last (c # last ns)"
  by (induction ns rule: rev_induct) simp_all

lemma last_slash_path:
  assumes "segs \<noteq> []" and "last segs \<noteq> []"
  shows "slash_path segs \<noteq> [] \<and> last (slash_path segs) = last (last segs)"
proof (cases segs)
  case Nil
  with assms show ?thesis by simp
next
  case (Cons n ns)
  show ?thesis
  proof (cases "ns = []")
    case True
    with Cons assms show ?thesis by simp
  next
    case False
    with Cons assms last_concat_prefixed [OF False, of "CHR ''/''"] show ?thesis
      by simp
  qed
qed

lemma trailing_slashes_snoc:
  "s = [] \<or> last s \<noteq> CHR ''/'' \<Longrightarrow> trailing_slashes (s @ ''/'') = 1"
  by (cases s rule: rev_cases) (auto simp: trailing_slashes_def)

lemma segment_nonempty: "s \<in> set (segment n) \<Longrightarrow> s \<noteq> []"
  by (cases n) (auto split: if_splits)

lemma one_trailing_slash:
  assumes "\<forall>s \<in> set segs. s \<noteq> []"
    and "segs = [] \<or> last (last segs) \<noteq> CHR ''/''"
  shows "trailing_slashes (slash_path segs @ ''/'') = 1"
proof (cases "segs = []")
  case True
  then show ?thesis by (simp add: trailing_slashes_def)
next
  case False
  then have "last segs \<noteq> []"
    using assms(1) last_in_set by blast
  from last_slash_path [OF False this] assms(2) False
  have "last (slash_path segs) \<noteq> CHR ''/''" by simp
  then show ?thesis
    by (intro trailing_slashes_snoc) simp
qed

text \<open>
  Claim C7, amended. For a chain grown from a root whose \<open>append_slash\<close> is true, the
  URL is the \<open>/\<close>-joined path of the non-empty names followed by one \<open>/\<close>. It therefore
  ends with exactly one \<open>/\<close> when there is no non-empty name or the last non-empty name
  does not itself end with \<open>/\<close>. An unnamed root alone resolves to the empty string, or
  to \<open>/\<close> when \<open>append_slash\<close> is set.
\<close>

theorem url_append_slash:
  assumes "parent root = None"
  shows "(append_slash root \<longrightarrow>
            url (build root steps) [] =
              Inr (slash_path (segment (name root) @
                     filter (\<lambda>s. s \<noteq> []) (chained_names steps)) @ ''/''))
       \<and> (append_slash root \<longrightarrow>
            (segment (name root) @ filter (\<lambda>s. s \<noteq> []) (chained_names steps) = [] \<or>
             last (last (segment (name root) @ filter (\<lambda>s. s \<noteq> []) (chained_names steps)))
               \<noteq> CHR ''/'') \<longrightarrow>
            (\<exists>u. url (build root steps) [] = Inr u \<and> trailing_slashes u = 1))
       \<and> (\<not> truthy (name root) \<longrightarrow>
            url root [] = Inr (if append_slash root then ''/'' else []))"
proof -
  let ?segs = "segment (name root) @ filter (\<lambda>s. s \<noteq> []) (chained_names steps)"
  have u: "url (build root steps) [] =
             Inr (slash_path ?segs @ (if append_slash root then ''/'' else []))"
    by (simp add: url_build [OF assms])
  have "\<forall>s \<in> set ?segs. s \<noteq> []"
    by (auto dest: segment_nonempty)
  then have one: "trailing_slashes (slash_path ?segs @ ''/'') = 1"
    if "?segs = [] \<or> last (last ?segs) \<noteq> CHR ''/''"
    using that by (rule one_trailing_slash)
  have alone: "url root [] = Inr (if append_slash root then ''/'' else [])"
    if "\<not> truthy (name root)"
  proof -
    have "segment (name root) = []"
      using that by (cases "name root") auto
    with url_build [OF assms, of "[]" "[]"] show ?thesis
      by (simp add: build_def chained_names_def)
  qed
  from u one alone show ?thesis by simp
qed

text \<open>
  The slash is appended to whatever the path is: a last name that ends with \<open>/\<close> gives a
  URL that ends with two.
\<close>

theorem url_append_slash_counterexample:
  "parent (init None None True None) = None
   \<and> append_slash (init None None True None)
   \<and> url (build (init None None True None) [Call [ArgStr ''a/'']]) [] = Inr ''a//''
   \<and> trailing_slashes ''a//'' = 2"
  by (simp add: init_def build_def call_def chain'_def copy_attributes_def url_def join_def
        trailing_slashes_def)

text \<open>The amended statement at \<^verbatim>\<open>root.api("v1")\<close> and at the root alone.\<close>

theorem url_append_slash_witness:
  "parent (init None None True None) = None
   \<and> append_slash (init None None True None)
   \<and> url (build (init None None True None) [Attr ''api'', Call [ArgStr ''v1'']]) []
        = Inr ''api/v1/''
   \<and> trailing_slashes ''api/v1/'' = 1
   \<and> \<not> truthy (name (init None None True None))
   \<and> url (init None None True None) [] = Inr ''/''"
  using url_append_slash [of "init None None True None" "[Attr ''api'', Call [ArgStr ''v1'']]"]
  by (simp add: init_def chained_names_def trailing_slashes_def)

subsection \<open>Calling a node without arguments\<close>

lemma copy_attributes_self: "copy_attributes self self = self"
  by (cases self) (simp add: copy_attributes_def map_add_subsumed2)

lemma chain_no_args: "chain' self [] = self"
  by (simp add: chain'_def copy_attributes_self)

text \<open>
  Claim C8. A call with no positional argument returns the node it was made on (its own
  attributes are written back onto it, which changes nothing), so the result resolves
  to the same URL as the original, whatever extra segments are resolved with it.
\<close>

theorem call_no_args:
  "call self [] = self \<and> url (call self []) args = url self args"
  by (simp add: call_def chain_no_args)

subsection \<open>What a new node inherits\<close>

lemma session_copy_attributes: "session (copy_attributes self c) = session self"
  by (simp add: copy_attributes_def)

lemma custom_copy_attributes: "custom (copy_attributes self c) = custom c ++ custom self"
  by (simp add: copy_attributes_def)

lemma session_getattr: "session (getattr self nm) = session self"
  by (simp add: getattr_def session_copy_attributes)

lemma session_chain: "session (chain' self args) = session self"
  by (simp add: chain'_def session_copy_attributes)

lemma session_apply_step: "session (apply_step h st) = session h"
  by (cases st) (simp_all add: session_getattr call_def session_chain)

lemma session_build: "session (build root steps) = session root"
  unfolding build_def
  by (induction steps rule: rev_induct) (simp_all add: session_apply_step)

lemma custom_getattr: "custom (getattr self nm) = custom self"
  by (simp add: getattr_def custom_copy_attributes init_def)

lemma custom_chain_key: "custom self k = Some v \<Longrightarrow> custom (chain' self args) k = Some v"
  by (simp add: chain'_def custom_copy_attributes)

lemma custom_apply_step: "custom h k = Some v \<Longrightarrow> custom (apply_step h st) k = Some v"
  by (cases st) (simp_all add: custom_getattr call_def custom_chain_key)

lemma custom_build: "custom root k = Some v \<Longrightarrow> custom (build root steps) k = Some v"
  unfolding build_def
  by (induction steps rule: rev_induct) (simp_all add: custom_apply_step)

text \<open>
  Claim C6, amended. Creating a child copies the session field: the node returned by an
  attribute access or by a call holds the very session field of the node it was made
  from, present exactly when that one is, and so does every node returned along a chain
  grown from it.
\<close>

theorem child_session_copied:
  "session (getattr self nm) = session self
   \<and> session (call self args) = session self
   \<and> session (build self steps) = session self"
  by (simp add: session_getattr call_def session_chain session_build)

text \<open>
  The constructor call inside \<^verbatim>\<open>__getattr__\<close> and \<^verbatim>\<open>_chain\<close> passes no session argument, and
  a node constructed that way has none; the child they return has the root's all the same.
\<close>

theorem child_session_counterexample:
  "session (init (Some ''users'') (Some (init None None False (Some 7))) False None) = None
   \<and> session (getattr (init None None False (Some 7)) ''users'') = Some 7
   \<and> session (call (init None None False (Some 7)) [ArgStr ''users'']) = Some 7"
  by (simp add: init_def getattr_def call_def chain'_def copy_attributes_def)

text \<open>
  Claim C10, amended. An attribute a caller attached to a node is carried by every node
  that an attribute access or a call (with any number of segment arguments) on it
  returns, and by every node returned further down a chain grown from it; a grandchild
  created after the attachment sees the value.
\<close>

theorem custom_inherited:
  assumes "custom self k = Some v"
  shows "custom (getattr self nm) k = Some v
       \<and> custom (call self args) k = Some v
       \<and> custom (build self steps) k = Some v"
  using assms by (simp add: custom_getattr call_def custom_chain_key custom_build)

text \<open>A default header attached to a root reaches \<^verbatim>\<open>root.child("a", 3)\<close>.\<close>

theorem custom_inherited_witness:
  "custom (setattr (init None None False None) ''headers'' (PDict [(''Accept'', PStr ''json'')]))
      ''headers'' = Some (PDict [(''Accept'', PStr ''json'')])
   \<and> custom (build (setattr (init None None False None) ''headers''
                (PDict [(''Accept'', PStr ''json'')]))
         [Attr ''child'', Call [ArgStr ''a'', ArgInt 3]]) ''headers''
       = Some (PDict [(''Accept'', PStr ''json'')])"
  using custom_inherited [of "setattr (init None None False None) ''headers''
                (PDict [(''Accept'', PStr ''json'')])" "''headers''" "PDict [(''Accept'', PStr ''json'')]"
                "''x''" "[]" "[Attr ''child'', Call [ArgStr ''a'', ArgInt 3]]"]
  by (simp add: setattr_def init_def)

text \<open>
  \<^verbatim>\<open>_chain\<close> copies the attributes onto the last node only: the node it creates for an
  argument that is not the last one, here \<open>a\<close> in \<^verbatim>\<open>node("a", "b")\<close>, carries none.
\<close>

theorem custom_not_on_intermediate:
  "custom (setattr (init None None False None) ''headers'' (PStr ''x'')) ''headers''
     = Some (PStr ''x'')
   \<and> map_option (\<lambda>m. (name m, custom m ''headers''))
        (parent (call (setattr (init None None False None) ''headers'' (PStr ''x''))
                   [ArgStr ''a'', ArgStr ''b'']))
     = Some (Some ''a'', None)
   \<and> custom (call (setattr (init None None False None) ''headers'' (PStr ''x''))
                   [ArgStr ''a'', ArgStr ''b'']) ''headers'' = Some (PStr ''x'')"
  by (simp add: setattr_def init_def call_def chain'_def copy_attributes_def)

subsection \<open>Finding and closing the session\<close>

text \<open>
  \<^verbatim>\<open>_probe_session\<close> runs over \<^verbatim>\<open>__iter__\<close>, which yields the named nodes only; the search
  of the specification runs over every node. They agree on a chain whose nodes all have
  a non-empty name, and a session attached at the root is found from every named node
  of a chain grown from it.
\<close>

lemma find_session_ancestors: "find_session h = probe_loop (ancestors h)"
  by (induction h rule: find_session.induct) (simp split: option.split)

lemma probe_session_all_named:
  assumes "\<forall>m \<in> set (ancestors h). truthy (name m)"
  shows "probe_session h = find_session h"
proof -
  from assms have "filter (\<lambda>m. truthy (name m)) (ancestors h) = ancestors h"
    by (simp add: filter_id_conv)
  then show ?thesis
    by (simp add: probe_session_def iter_ancestors find_session_ancestors)
qed

lemma probe_session_named_self:
  assumes "truthy (name h)" and "session h = Some s"
  shows "probe_session h = Some s"
  using assms by (subst probe_session_def, subst iter_unfold) simp

lemma probe_session_from_root:
  assumes "session root = Some s" and "truthy (name (build root steps))"
  shows "probe_session (build root steps) = Some s"
  using assms by (intro probe_session_named_self) (simp_all add: session_build)

lemma close_session_cases:
  "close_session self False w =
     (case session self of None \<Rightarrow> w | Some s \<Rightarrow> w\<lparr>closed := closed w @ [s]\<rparr>)"
  "close_session self True w =
     (case probe_session self of
        Some s \<Rightarrow> w\<lparr>closed := closed w @ [s]\<rparr>
      | None \<Rightarrow> (case session self of None \<Rightarrow> w | Some s \<Rightarrow> w\<lparr>closed := closed w @ [s]\<rparr>))"
  by (simp_all add: close_session_def split: option.split)

lemma find_session_None_self: "find_session h = None \<Longrightarrow> session h = None"
  by (cases h) (simp split: option.splits)

lemma close_session_all_named:
  assumes "\<forall>m \<in> set (ancestors h). truthy (name m)"
  shows "close_session h True w =
     (case find_session h of None \<Rightarrow> w | Some s \<Rightarrow> w\<lparr>closed := closed w @ [s]\<rparr>)"
  using probe_session_all_named [OF assms]
  by (auto simp: close_session_cases(2) split: option.split dest: find_session_None_self)

text \<open>
  Claim C5. \<open>findSession\<close> is to return the first session field that is present, from
  the node itself upward. \<^verbatim>\<open>_probe_session\<close> passes over a node whose name is absent or
  empty: a root made with session arguments and no name holds session 7, and the
  search returns nothing from the root itself, and nothing from a named child
  constructed on it.
\<close>

theorem probe_session_skips_unnamed:
  "session (init None None False (Some 7)) = Some 7
   \<and> find_session (init None None False (Some 7)) = Some 7
   \<and> probe_session (init None None False (Some 7)) = None
   \<and> find_session (init (Some ''users'') (Some (init None None False (Some 7))) False None) = Some 7
   \<and> probe_session (init (Some ''users'') (Some (init None None False (Some 7))) False None) = None"
  by (simp add: init_def probe_session_def)

text \<open>
  Claim C9. With \<open>probe\<close> set, \<^verbatim>\<open>_close_session\<close> is to close the session the ancestor
  search finds. From a named child constructed on an unnamed root that holds session 7
  it closes nothing, because \<^verbatim>\<open>_probe_session\<close> passes over the root; on that root itself
  the search finds nothing and session 7 is closed through the \<^verbatim>\<open>or self._session\<close>
  part of the expression.
\<close>

theorem close_session_misses_unnamed:
  "find_session (init (Some ''users'') (Some (init None None False (Some 7))) False None) = Some 7
   \<and> close_session (init (Some ''users'') (Some (init None None False (Some 7))) False None) True
        \<lparr>closed = [], sent = []\<rparr> = \<lparr>closed = [], sent = []\<rparr>
   \<and> probe_session (init None None False (Some 7)) = None
   \<and> close_session (init None None False (Some 7)) True \<lparr>closed = [], sent = []\<rparr>
        = \<lparr>closed = [7], sent = []\<rparr>"
  by (simp add: init_def probe_session_def close_session_def)

subsection \<open>Dispatch and the coercion of keyword arguments\<close>

lemma request_sends:
  assumes "''self'' \<notin> set (map fst kw)" and "''method'' \<notin> set (map fst kw)"
  shows "\<exists>u. url h args = Inr u \<and>
     request tr h m args kw w =
       (tr \<lparr>target = probe_session h, meth = m, address = u, options = kw\<rparr>,
        w\<lparr>sent := sent w @ [\<lparr>target = probe_session h, meth = m, address = u, options = kw\<rparr>]\<rparr>)"
proof -
  obtain u where "url h args = Inr u"
    using url_total by blast
  with assms show ?thesis
    by (simp add: request_def Let_def)
qed

lemma request_type_error:
  assumes "''self'' \<in> set (map fst kw) \<or> ''method'' \<in> set (map fst kw)"
  shows "request tr h m args kw w = (Inl TypeError, w)"
  using assms unfolding request_def by (simp only: if_True)

lemma coercion_rule_keys:
  assumes "coercion_rule kw = Inr kw'"
  shows "''self'' \<notin> set (map fst kw') \<and> ''method'' \<notin> set (map fst kw')"
proof (cases "filter (\<lambda>(k, v). k \<notin> REQUESTS_SPECIAL_KEYS) kw = []")
  case True
  then have "\<forall>k \<in> set (map fst kw). k \<in> REQUESTS_SPECIAL_KEYS"
    by (auto simp: filter_empty_conv)
  moreover have "''self'' \<notin> REQUESTS_SPECIAL_KEYS" and "''method'' \<notin> REQUESTS_SPECIAL_KEYS"
    by (simp_all add: REQUESTS_SPECIAL_KEYS_def)
  moreover from True assms have "kw' = kw"
    by (simp add: coercion_rule_def)
  ultimately show ?thesis by blast
next
  case False
  with assms have "kw' = [(''params'', PDict (filter (\<lambda>(k, v). k \<notin> REQUESTS_SPECIAL_KEYS) kw))]"
    by (simp add: coercion_rule_def Let_def split: if_splits)
  then show ?thesis by simp
qed

lemma fold_scan_flags:
  "fold scan_key kw (sp, nsp, pts) = (sp', nsp', pts') \<Longrightarrow>
     sp' = (sp \<or> (\<exists>k \<in> set (map fst kw). k \<in> REQUESTS_SPECIAL_KEYS)) \<and>
     nsp' = (nsp \<or> (\<exists>k \<in> set (map fst kw). k \<notin> REQUESTS_SPECIAL_KEYS))"
proof (induction kw arbitrary: sp nsp pts)
  case Nil
  then show ?case by simp
next
  case (Cons p kw)
  obtain key v where p: "p = (key, v)" by (cases p)
  show ?case
  proof (cases "key \<in> REQUESTS_SPECIAL_KEYS")
    case True
    with Cons.prems p have "fold scan_key kw (True, nsp, pts) = (sp', nsp', pts')"
      by simp
    from Cons.IH [OF this] True p show ?thesis by auto
  next
    case False
    with Cons.prems p
    have "fold scan_key kw (sp, True, setdefault_update ''params'' key v pts) = (sp', nsp', pts')"
      by simp
    from Cons.IH [OF this] False p show ?thesis by auto
  qed
qed

lemma dict_update_fresh: "k \<notin> set (map fst d) \<Longrightarrow> dict_update k v d = d @ [(k, v)]"
  by (induction d) auto

lemma fold_scan_params:
  assumes "\<forall>k \<in> set (map fst kw). k \<notin> REQUESTS_SPECIAL_KEYS"
    and "distinct (map fst (acc @ kw))"
  shows "snd (snd (fold scan_key kw (sp, nsp, [(''params'', acc)]))) = [(''params'', acc @ kw)]"
  using assms
proof (induction kw arbitrary: acc sp nsp)
  case Nil
  then show ?case by simp
next
  case (Cons p kw)
  obtain key v where p: "p = (key, v)" by (cases p)
  from Cons.prems p have fresh: "key \<notin> set (map fst acc)" and ns: "key \<notin> REQUESTS_SPECIAL_KEYS"
    by auto
  have step: "setdefault_update ''params'' key v [(''params'', acc)] = [(''params'', acc @ [(key, v)])]"
    by (simp add: setdefault_update_def dict_update_fresh [OF fresh])
  have "snd (snd (fold scan_key kw (sp, True, [(''params'', acc @ [(key, v)])])))
          = [(''params'', (acc @ [(key, v)]) @ kw)]"
    using Cons.prems p by (intro Cons.IH) auto
  with ns p step show ?case by simp
qed

lemma fold_scan_params_start:
  assumes "\<forall>k \<in> set (map fst kw). k \<notin> REQUESTS_SPECIAL_KEYS"
    and "distinct (map fst kw)" and "kw \<noteq> []"
  shows "snd (snd (fold scan_key kw (sp, nsp, []))) = [(''params'', kw)]"
proof (cases kw)
  case Nil
  with assms show ?thesis by simp
next
  case (Cons p rest)
  obtain key v where p: "p = (key, v)" by (cases p)
  have "snd (snd (fold scan_key rest (sp, True, [(''params'', [(key, v)])])))
          = [(''params'', [(key, v)] @ rest)]"
    using assms Cons p by (intro fold_scan_params) auto
  with assms Cons p show ?thesis
    by (simp add: setdefault_update_def)
qed

lemma bind_method_coercion_rule:
  assumes "distinct (map fst kw)"
  shows "bind_method method tr h args kw w =
     (if method = ''get'' \<and> kw \<noteq> [] \<and> ''params'' \<notin> set (map fst kw)
      then (case coercion_rule kw of
              Inl e \<Rightarrow> (Inl e, w)
            | Inr kw' \<Rightarrow> request tr h method args kw' w)
      else request tr h method args kw w)"
proof (cases "method = ''get'' \<and> kw \<noteq> [] \<and> ''params'' \<notin> set (map fst kw)")
  case False
  then show ?thesis
    unfolding bind_method_def by (simp only: if_False)
next
  case True
  obtain sp nsp pts where f: "fold scan_key kw (False, False, []) = (sp, nsp, pts)"
    by (cases "fold scan_key kw (False, False, [])") auto
  from fold_scan_flags [OF f]
  have sp: "sp = (\<exists>k \<in> set (map fst kw). k \<in> REQUESTS_SPECIAL_KEYS)"
    and nsp: "nsp = (\<exists>k \<in> set (map fst kw). k \<notin> REQUESTS_SPECIAL_KEYS)"
    by simp_all
  have others: "(filter (\<lambda>(k, v). k \<notin> REQUESTS_SPECIAL_KEYS) kw \<noteq> []) = nsp"
    unfolding nsp by (force simp: filter_empty_conv)
  have specials: "(filter (\<lambda>(k, v). k \<in> REQUESTS_SPECIAL_KEYS) kw \<noteq> []) = sp"
    unfolding sp by (force simp: filter_empty_conv)
  show ?thesis
  proof (cases nsp)
    case False
    with True f others specials show ?thesis
      by (simp add: bind_method_def coercion_rule_def)
  next
    case nsp_true: True
    show ?thesis
    proof (cases sp)
      case True
      with \<open>method = ''get'' \<and> kw \<noteq> [] \<and> ''params'' \<notin> set (map fst kw)\<close> nsp_true f others specials
      show ?thesis
        by (simp add: bind_method_def coercion_rule_def)
    next
      case False
      then have all: "\<forall>k \<in> set (map fst kw). k \<notin> REQUESTS_SPECIAL_KEYS"
        using sp by simp
      then have "filter (\<lambda>(k, v). k \<notin> REQUESTS_SPECIAL_KEYS) kw = kw"
        by (auto simp: filter_id_conv)
      moreover have "pts = [(''params'', kw)]"
        using fold_scan_params_start [OF all assms, of False False] True f by simp
      ultimately show ?thesis
        using True False nsp_true f others specials
        by (simp add: bind_method_def coercion_rule_def)
    qed
  qed
qed

text \<open>
  Claim C2. A \<open>GET\<close> whose keyword options are non-empty and hold only keys outside the
  recognised set (so no \<open>params\<close> key either) sends one request, on any node, whose
  options are the single entry \<open>params\<close> holding exactly the pairs given.
\<close>

theorem get_params_bundle:
  assumes "kw \<noteq> []" and "distinct (map fst kw)"
    and "\<forall>k \<in> set (map fst kw). k \<notin> REQUESTS_SPECIAL_KEYS"
  shows "\<exists>u. url h args = Inr u \<and>
           bind_method ''get'' tr h args kw w =
             (tr \<lparr>target = probe_session h, meth = ''get'', address = u,
                  options = [(''params'', PDict kw)]\<rparr>,
              w\<lparr>sent := sent w @
                   [\<lparr>target = probe_session h, meth = ''get'', address = u,
                     options = [(''params'', PDict kw)]\<rparr>]\<rparr>)"
proof -
  have "''params'' \<in> REQUESTS_SPECIAL_KEYS"
    by (simp add: REQUESTS_SPECIAL_KEYS_def)
  with assms(3) have np: "''params'' \<notin> set (map fst kw)"
    by blast
  have "filter (\<lambda>(k, v). k \<notin> REQUESTS_SPECIAL_KEYS) kw = kw"
    using assms(3) by (auto simp: filter_id_conv)
  moreover have "filter (\<lambda>(k, v). k \<in> REQUESTS_SPECIAL_KEYS) kw = []"
    using assms(3) by (auto simp: filter_empty_conv)
  ultimately have "coercion_rule kw = Inr [(''params'', PDict kw)]"
    using assms(1) by (simp add: coercion_rule_def)
  with np assms(1) bind_method_coercion_rule [OF assms(2), of "''get''" tr h args w]
  have "bind_method ''get'' tr h args kw w
          = request tr h ''get'' args [(''params'', PDict kw)] w"
    by simp
  moreover have "\<exists>u. url h args = Inr u \<and>
      request tr h ''get'' args [(''params'', PDict kw)] w =
        (tr \<lparr>target = probe_session h, meth = ''get'', address = u,
             options = [(''params'', PDict kw)]\<rparr>,
         w\<lparr>sent := sent w @
              [\<lparr>target = probe_session h, meth = ''get'', address = u,
                options = [(''params'', PDict kw)]\<rparr>]\<rparr>)"
    by (rule request_sends) simp_all
  ultimately show ?thesis by simp
qed

text \<open>\<^verbatim>\<open>root.GET(filter=12)\<close> sends \<^verbatim>\<open>{'params': {'filter': 12}}\<close>.\<close>

theorem get_params_bundle_witness:
  "[(''filter'', PInt 12)] \<noteq> []
   \<and> distinct (map fst [(''filter'', PInt 12)])
   \<and> ''filter'' \<notin> REQUESTS_SPECIAL_KEYS
   \<and> bind_method ''get'' (\<lambda>c. Inr (200 :: nat)) (init None None False None) []
         [(''filter'', PInt 12)] \<lparr>closed = [], sent = []\<rparr>
       = (Inr 200,
          \<lparr>closed = [],
           sent = [\<lparr>target = None, meth = ''get'', address = [],
                    options = [(''params'', PDict [(''filter'', PInt 12)])]\<rparr>]\<rparr>)"
  using get_params_bundle [of "[(''filter'', PInt 12)]" "init None None False None" "[]"
      "\<lambda>c. Inr (200 :: nat)" "\<lparr>closed = [], sent = []\<rparr>"]
  by (simp add: REQUESTS_SPECIAL_KEYS_def url_def chain'_def copy_attributes_def init_def
        join_def probe_session_def)

text \<open>
  Claim C3. A \<open>GET\<close> whose options have no \<open>params\<close> key and hold at least one
  recognised key together with at least one other key raises the exception of
  \<^verbatim>\<open>aux\<close> to the caller and leaves the world as it was: no request is sent.
\<close>

theorem get_ambiguous_arguments:
  assumes "''params'' \<notin> set (map fst kw)"
    and "\<exists>k \<in> set (map fst kw). k \<in> REQUESTS_SPECIAL_KEYS"
    and "\<exists>k \<in> set (map fst kw). k \<notin> REQUESTS_SPECIAL_KEYS"
  shows "bind_method ''get'' tr h args kw w = (Inl (Exception ambiguous_message), w)"
proof -
  obtain sp nsp pts where f: "fold scan_key kw (False, False, []) = (sp, nsp, pts)"
    by (cases "fold scan_key kw (False, False, [])") auto
  from fold_scan_flags [OF f] assms(2,3) have "sp" and "nsp"
    by simp_all
  moreover from assms(2) have "kw \<noteq> []"
    by auto
  ultimately show ?thesis
    using assms(1) f by (simp add: bind_method_def)
qed

text \<open>\<^verbatim>\<open>root.GET(headers={}, filter=12)\<close> raises.\<close>

theorem get_ambiguous_arguments_witness:
  "''params'' \<notin> set (map fst [(''headers'', PDict []), (''filter'', PInt 12)])
   \<and> ''headers'' \<in> REQUESTS_SPECIAL_KEYS
   \<and> ''filter'' \<notin> REQUESTS_SPECIAL_KEYS
   \<and> bind_method ''get'' (\<lambda>c. Inr (200 :: nat)) (init None None False None) []
         [(''headers'', PDict []), (''filter'', PInt 12)] \<lparr>closed = [], sent = []\<rparr>
       = (Inl (Exception ambiguous_message), \<lparr>closed = [], sent = []\<rparr>)"
  using get_ambiguous_arguments [of "[(''headers'', PDict []), (''filter'', PInt 12)]"
      "\<lambda>c. Inr (200 :: nat)" "init None None False None" "[]" "\<lparr>closed = [], sent = []\<rparr>"]
  by (simp add: REQUESTS_SPECIAL_KEYS_def)

text \<open>
  Claim C4, amended. The coercion rule is applied exactly when the method is \<open>get\<close>, the
  options are non-empty and they hold no \<open>params\<close> key; its outcome is then the rule's
  (the exception, or one request with the options the rule gives). In every other case
  (another verb, no option, a \<open>params\<close> key present) one request is sent with the options
  as given and nothing is raised, provided no option is named \<open>self\<close> or \<open>method\<close>: with
  such an option the forwarding call cannot be bound, \<^verbatim>\<open>TypeError\<close> is raised and nothing
  is sent.
\<close>

theorem coercion_gate:
  assumes "distinct (map fst kw)"
  shows "(\<not> (method = ''get'' \<and> kw \<noteq> [] \<and> ''params'' \<notin> set (map fst kw)) \<longrightarrow>
          ''self'' \<notin> set (map fst kw) \<and> ''method'' \<notin> set (map fst kw) \<longrightarrow>
            (\<exists>u. url h args = Inr u \<and>
               bind_method method tr h args kw w =
                 (tr \<lparr>target = probe_session h, meth = method, address = u, options = kw\<rparr>,
                  w\<lparr>sent := sent w @
                       [\<lparr>target = probe_session h, meth = method, address = u,
                         options = kw\<rparr>]\<rparr>)))
       \<and> (\<not> (method = ''get'' \<and> kw \<noteq> [] \<and> ''params'' \<notin> set (map fst kw)) \<longrightarrow>
          ''self'' \<in> set (map fst kw) \<or> ''method'' \<in> set (map fst kw) \<longrightarrow>
            bind_method method tr h args kw w = (Inl TypeError, w))
       \<and> (method = ''get'' \<and> kw \<noteq> [] \<and> ''params'' \<notin> set (map fst kw) \<longrightarrow>
            (\<exists>u. url h args = Inr u \<and>
               bind_method method tr h args kw w =
                 (case coercion_rule kw of
                    Inl e \<Rightarrow> (Inl e, w)
                  | Inr kw' \<Rightarrow>
                      (tr \<lparr>target = probe_session h, meth = method, address = u,
                           options = kw'\<rparr>,
                       w\<lparr>sent := sent w @
                            [\<lparr>target = probe_session h, meth = method, address = u,
                              options = kw'\<rparr>]\<rparr>))))"
proof (intro conjI impI)
  assume "\<not> (method = ''get'' \<and> kw \<noteq> [] \<and> ''params'' \<notin> set (map fst kw))"
    and ok: "''self'' \<notin> set (map fst kw) \<and> ''method'' \<notin> set (map fst kw)"
  then have "bind_method method tr h args kw w = request tr h method args kw w"
    unfolding bind_method_def by (simp only: if_False)
  moreover from ok have "\<exists>u. url h args = Inr u \<and>
      request tr h method args kw w =
        (tr \<lparr>target = probe_session h, meth = method, address = u, options = kw\<rparr>,
         w\<lparr>sent := sent w @
              [\<lparr>target = probe_session h, meth = method, address = u, options = kw\<rparr>]\<rparr>)"
    by (intro request_sends) simp_all
  ultimately
  show "\<exists>u. url h args = Inr u \<and>
          bind_method method tr h args kw w =
            (tr \<lparr>target = probe_session h, meth = method, address = u, options = kw\<rparr>,
             w\<lparr>sent := sent w @
                  [\<lparr>target = probe_session h, meth = method, address = u,
                    options = kw\<rparr>]\<rparr>)"
    by (simp only:)
next
  assume "\<not> (method = ''get'' \<and> kw \<noteq> [] \<and> ''params'' \<notin> set (map fst kw))"
    and bad: "''self'' \<in> set (map fst kw) \<or> ''method'' \<in> set (map fst kw)"
  then have "bind_method method tr h args kw w = request tr h method args kw w"
    unfolding bind_method_def by (simp only: if_False)
  with request_type_error [OF bad]
  show "bind_method method tr h args kw w = (Inl TypeError, w)"
    by (simp only:)
next
  assume gate: "method = ''get'' \<and> kw \<noteq> [] \<and> ''params'' \<notin> set (map fst kw)"
  then have b: "bind_method method tr h args kw w =
               (case coercion_rule kw of
                  Inl e \<Rightarrow> (Inl e, w)
                | Inr kw' \<Rightarrow> request tr h method args kw' w)"
    by (simp add: bind_method_coercion_rule [OF assms] split: sum.split)
  obtain u where u: "url h args = Inr u"
    using url_total by blast
  show "\<exists>u. url h args = Inr u \<and>
          bind_method method tr h args kw w =
            (case coercion_rule kw of
               Inl e \<Rightarrow> (Inl e, w)
             | Inr kw' \<Rightarrow>
                 (tr \<lparr>target = probe_session h, meth = method, address = u, options = kw'\<rparr>,
                  w\<lparr>sent := sent w @
                       [\<lparr>target = probe_session h, meth = method, address = u,
                         options = kw'\<rparr>]\<rparr>))"
  proof (cases "coercion_rule kw")
    case (Inl e)
    with b u show ?thesis by simp
  next
    case (Inr kw')
    from coercion_rule_keys [OF Inr]
    have "\<exists>u. url h args = Inr u \<and>
      request tr h method args kw' w =
        (tr \<lparr>target = probe_session h, meth = method, address = u, options = kw'\<rparr>,
         w\<lparr>sent := sent w @
              [\<lparr>target = probe_session h, meth = method, address = u, options = kw'\<rparr>]\<rparr>)"
      by (intro request_sends) simp_all
    with b Inr show ?thesis by simp
  qed
qed

text \<open>
  \<^verbatim>\<open>POST(method='x')\<close> and \<^verbatim>\<open>GET(params={}, self=1)\<close> are outside the gate, and neither
  reaches the transport: forwarding them raises \<^verbatim>\<open>TypeError\<close>.
\<close>

theorem coercion_gate_counterexample:
  "bind_method ''post'' (\<lambda>c. Inr (200 :: nat)) (init None None False None) []
       [(''method'', PStr ''x'')] \<lparr>closed = [], sent = []\<rparr>
     = (Inl TypeError, \<lparr>closed = [], sent = []\<rparr>)
   \<and> bind_method ''get'' (\<lambda>c. Inr (200 :: nat)) (init None None False None) []
       [(''params'', PDict []), (''self'', PInt 1)] \<lparr>closed = [], sent = []\<rparr>
     = (Inl TypeError, \<lparr>closed = [], sent = []\<rparr>)"
  by (simp add: bind_method_def request_def)

text \<open>
  \<^verbatim>\<open>GET(params={'a': 1}, filter=12)\<close> and \<^verbatim>\<open>POST(filter=12)\<close> forward their options
  untouched; \<^verbatim>\<open>GET(headers={})\<close> goes through the rule, which leaves it alone.
\<close>

theorem coercion_gate_witness:
  "distinct (map fst [(''params'', PDict [(''a'', PInt 1)]), (''filter'', PInt 12)])
   \<and> ''self'' \<notin> set (map fst [(''params'', PDict [(''a'', PInt 1)]), (''filter'', PInt 12)])
   \<and> ''method'' \<notin> set (map fst [(''params'', PDict [(''a'', PInt 1)]), (''filter'', PInt 12)])
   \<and> bind_method ''get'' (\<lambda>c. Inr (200 :: nat)) (init None None False None) []
         [(''params'', PDict [(''a'', PInt 1)]), (''filter'', PInt 12)]
         \<lparr>closed = [], sent = []\<rparr>
       = (Inr 200,
          \<lparr>closed = [],
           sent = [\<lparr>target = None, meth = ''get'', address = [],
                    options = [(''params'', PDict [(''a'', PInt 1)]), (''filter'', PInt 12)]\<rparr>]\<rparr>)
   \<and> bind_method ''post'' (\<lambda>c. Inr (200 :: nat)) (init None None False None) []
         [(''filter'', PInt 12)] \<lparr>closed = [], sent = []\<rparr>
       = (Inr 200,
          \<lparr>closed = [],
           sent = [\<lparr>target = None, meth = ''post'', address = [],
                    options = [(''filter'', PInt 12)]\<rparr>]\<rparr>)
   \<and> bind_method ''get'' (\<lambda>c. Inr (200 :: nat)) (init None None False None) []
         [(''headers'', PDict [])] \<lparr>closed = [], sent = []\<rparr>
       = (Inr 200,
          \<lparr>closed = [],
           sent = [\<lparr>target = None, meth = ''get'', address = [],
                    options = [(''headers'', PDict [])]\<rparr>]\<rparr>)
   \<and> bind_method ''post'' (\<lambda>c. Inr (200 :: nat)) (init None None False None) []
         [(''method'', PStr ''x'')] \<lparr>closed = [], sent = []\<rparr>
       = (Inl TypeError, \<lparr>closed = [], sent = []\<rparr>)"
  using coercion_gate [of "[(''params'', PDict [(''a'', PInt 1)]), (''filter'', PInt 12)]"
      "''get''" "init None None False None" "[]" "\<lambda>c. Inr (200 :: nat)"
      "\<lparr>closed = [], sent = []\<rparr>"]
    coercion_gate [of "[(''filter'', PInt 12)]"
      "''post''" "init None None False None" "[]" "\<lambda>c. Inr (200 :: nat)"
      "\<lparr>closed = [], sent = []\<rparr>"]
    coercion_gate [of "[(''headers'', PDict [])]"
      "''get''" "init None None False None" "[]" "\<lambda>c. Inr (200 :: nat)"
      "\<lparr>closed = [], sent = []\<rparr>"]
    coercion_gate [of "[(''method'', PStr ''x'')]"
      "''post''" "init None None False None" "[]" "\<lambda>c. Inr (200 :: nat)"
      "\<lparr>closed = [], sent = []\<rparr>"]
  by (simp add: url_def chain'_def copy_attributes_def init_def join_def probe_session_def
        coercion_rule_def REQUESTS_SPECIAL_KEYS_def)

end
